theory Spec2Isabelle
  imports Main "HOL-Library.Multiset" "HOL-Library.AList"
begin

section \<open>The filesystem the tool reads\<close>

text \<open>
  The program of \<^verbatim>\<open>find_unused.py\<close> only reads the filesystem.  A snapshot of the
  filesystem is a tree.  A directory lists its entries in the order in which the operating
  system enumerates them (the order \<^verbatim>\<open>os.walk\<close> reports).  A file is in one of three
  states, which are exactly the three outcomes of
  \<^verbatim>\<open>with open(p, "r", encoding="utf-8") as f: f.read()\<close>:
  \<^item> \<open>Unopenable\<close>: \<^verbatim>\<open>open\<close> itself raises (for instance no permission);
  \<^item> \<open>Binary\<close>: \<^verbatim>\<open>open\<close> succeeds and \<^verbatim>\<open>f.read()\<close> raises a decoding error,
    since the bytes are not valid UTF-8;
  \<^item> \<open>Text s\<close>: \<^verbatim>\<open>f.read()\<close> returns the text \<open>s\<close>.

  A path is the list of its components below the filesystem root, already absolute and
  normalised (what \<^verbatim>\<open>Path.resolve\<close> produces); \<open>[]\<close> is the root itself.  Two paths
  are equal exactly when they name the same file.  Symbolic links are not part of the model,
  every directory can be listed, and the snapshot does not change while the tool runs.
  A \<open>char\<close> stands for the character of the Python text with the same code, U+0000 to
  U+00FF.
\<close>

datatype contents = Unopenable | Binary | Text string

datatype node = File contents | Dir "(string \<times> node) list"

type_synonym path = "string list"

datatype error = FileNotFoundError | InvalidProcesses | NotADirectory

fun lookup :: "node \<Rightarrow> path \<Rightarrow> node option" where
  "lookup n [] = Some n"
| "lookup n (c # cs) =
     (case n of
        File f \<Rightarrow> None
      | Dir es \<Rightarrow> (case map_of es c of None \<Rightarrow> None | Some m \<Rightarrow> lookup m cs))"

definition exists_path :: "node \<Rightarrow> path \<Rightarrow> bool" where
  "exists_path fs p = (lookup fs p \<noteq> None)"

definition isdir :: "node \<Rightarrow> path \<Rightarrow> bool" where
  "isdir fs p = (case lookup fs p of Some (Dir es) \<Rightarrow> True | _ \<Rightarrow> False)"

text \<open>\<^verbatim>\<open>open(p, "r", encoding="utf-8")\<close> succeeds: nothing is decoded before a read.\<close>

definition can_open :: "node \<Rightarrow> path \<Rightarrow> bool" where
  "can_open fs p =
     (case lookup fs p of
        Some (File Unopenable) \<Rightarrow> False
      | Some (File f) \<Rightarrow> True
      | _ \<Rightarrow> False)"

text \<open>\<^verbatim>\<open>open\<close> followed by \<^verbatim>\<open>f.read()\<close>; \<open>None\<close> stands for any exception raised.\<close>

definition read_text :: "node \<Rightarrow> path \<Rightarrow> string option" where
  "read_text fs p = (case lookup fs p of Some (File (Text s)) \<Rightarrow> Some s | _ \<Rightarrow> None)"

text \<open>\<^verbatim>\<open>os.path.join(root, name)\<close>: joining the empty name gives the directory itself.\<close>

definition join :: "path \<Rightarrow> string \<Rightarrow> path" where
  "join root name = (if name = [] then root else root @ [name])"

definition is_dir_node :: "node \<Rightarrow> bool" where
  "is_dir_node n = (case n of Dir es \<Rightarrow> True | File f \<Rightarrow> False)"

text \<open>
  \<^verbatim>\<open>os.walk(top)\<close>, top-down: one triple \<open>(root, dirs, files)\<close> for each directory, the
  sub-directories visited in enumeration order.  Walking something that is not a directory
  yields nothing.
\<close>

fun walk_node :: "path \<Rightarrow> node \<Rightarrow> (path \<times> string list \<times> string list) list" where
  "walk_node root (File f) = []"
| "walk_node root (Dir es) =
     (root,
      map fst (filter (\<lambda>e. is_dir_node (snd e)) es),
      map fst (filter (\<lambda>e. \<not> is_dir_node (snd e)) es))
     # concat (map (\<lambda>e. walk_node (root @ [fst e]) (snd e)) es)"

definition os_walk :: "node \<Rightarrow> path \<Rightarrow> (path \<times> string list \<times> string list) list" where
  "os_walk fs top_dir = (case lookup fs top_dir of None \<Rightarrow> [] | Some n \<Rightarrow> walk_node top_dir n)"

section \<open>String helpers of Python used by the tool\<close>

definition endswith :: "string \<Rightarrow> string \<Rightarrow> bool" where
  "endswith s suf = (length suf \<le> length s \<and> drop (length s - length suf) s = suf)"

definition startswith :: "string \<Rightarrow> string \<Rightarrow> bool" where
  "startswith s pre = (take (length pre) s = pre)"

text \<open>\<^verbatim>\<open>guid in content\<close>: the substring test.\<close>

primrec contains :: "string \<Rightarrow> string \<Rightarrow> bool" where
  "contains [] g = (g = [])"
| "contains (c # cs) g = (startswith (c # cs) g \<or> contains cs g)"

text \<open>
  \<^verbatim>\<open>str.lower\<close> belongs to Python, not to the tool.  The functions of the tool that call it
  take it as the parameter \<open>lower\<close>, and what is proved of them holds for every such
  function.  For the example trees, \<open>lower_latin1\<close> is \<^verbatim>\<open>str.lower\<close> on the characters
  U+0000 to U+00FF, the characters that a \<open>char\<close> stands for: the capital letters there are
  \<^verbatim>\<open>A\<close> to \<^verbatim>\<open>Z\<close>, U+00C0 to U+00D6 and U+00D8 to U+00DE, and each is lowered by adding 32.
\<close>

definition lower_latin1_char :: "char \<Rightarrow> char" where
  "lower_latin1_char c =
     (let n = (of_char c :: nat) in
      if (65 \<le> n \<and> n \<le> 90) \<or> (192 \<le> n \<and> n \<le> 214) \<or> (216 \<le> n \<and> n \<le> 222)
      then char_of (n + 32) else c)"

definition lower_latin1 :: "string \<Rightarrow> string" where
  "lower_latin1 s = map lower_latin1_char s"

section \<open>The functions of the tool\<close>

subsection \<open>\<^verbatim>\<open>find_assets_dir\<close>\<close>

text \<open>
  \<^verbatim>\<open>current.parent\<close> is \<open>butlast current\<close>; the root is its own parent.  The loop runs
  while \<^verbatim>\<open>current.parent != current\<close>.
\<close>

function find_assets_dir :: "node \<Rightarrow> path \<Rightarrow> error + path" where
  "find_assets_dir fs current =
     (if butlast current \<noteq> current then
        (if isdir fs (current @ [''Assets'']) then Inr (current @ [''Assets''])
         else find_assets_dir fs (butlast current))
      else Inl FileNotFoundError)"
  by pat_completeness auto
termination
  by (relation "measure (\<lambda>(fs, current). length current)") (auto simp: butlast_conv_take)

declare find_assets_dir.simps [simp del]

subsection \<open>\<^verbatim>\<open>get_guid_from_meta\<close>\<close>

text \<open>The character class \<^verbatim>\<open>[a-f0-9]\<close>.\<close>

definition is_hex :: "char \<Rightarrow> bool" where
  "is_hex c = (c \<in> set ''abcdef0123456789'')"

text \<open>The pattern \<^verbatim>\<open>guid: ([a-f0-9]{32})\<close> matches at the start of \<open>s\<close>.\<close>

definition match_here :: "string \<Rightarrow> bool" where
  "match_here s =
     (startswith s ''guid: ''
      \<and> length (take 32 (drop 6 s)) = 32
      \<and> list_all is_hex (take 32 (drop 6 s)))"

text \<open>\<^verbatim>\<open>re.search\<close> with that pattern: group 1 of the leftmost match.\<close>

fun re_search_guid :: "string \<Rightarrow> string option" where
  "re_search_guid [] = None"
| "re_search_guid (c # cs) =
     (if match_here (c # cs) then Some (take 32 (drop 6 (c # cs))) else re_search_guid cs)"

definition get_guid_from_meta :: "node \<Rightarrow> path \<Rightarrow> string option" where
  "get_guid_from_meta fs meta_file_path =
     (case read_text fs meta_file_path of
        None \<Rightarrow> None
      | Some content \<Rightarrow> re_search_guid content)"

subsection \<open>\<^verbatim>\<open>find_assets_to_check\<close>\<close>

text \<open>
  The dictionary \<^verbatim>\<open>assets_to_check\<close> is an association list in insertion order;
  \<^verbatim>\<open>d[k] = v\<close> is \<^const>\<open>AList.update\<close>: a key already present keeps its place and gets
  the new value, a new key is appended.  \<open>index_file\<close> is the body of the inner loop.
\<close>

definition index_file ::
  "node \<Rightarrow> path \<Rightarrow> (string \<times> path) list \<Rightarrow> string \<Rightarrow> (string \<times> path) list" where
  "index_file fs root assets_to_check file =
     (if endswith file ''.meta'' then
        (let asset_path = join root (take (length file - 5) file) in
         if exists_path fs asset_path \<and> \<not> isdir fs asset_path then
           (case get_guid_from_meta fs (join root file) of
              None \<Rightarrow> assets_to_check
            | Some guid \<Rightarrow>
                if guid \<noteq> [] then AList.update guid asset_path assets_to_check
                else assets_to_check)
         else assets_to_check)
      else assets_to_check)"

definition find_assets_to_check :: "node \<Rightarrow> path \<Rightarrow> (string \<times> path) list" where
  "find_assets_to_check fs dir_path =
     foldl (\<lambda>assets_to_check (root, dirs, files). foldl (index_file fs root) assets_to_check files)
       [] (os_walk fs dir_path)"

subsection \<open>\<^verbatim>\<open>collect_searchable_files\<close>\<close>

definition collect_file ::
  "(string \<Rightarrow> string) \<Rightarrow> node \<Rightarrow> string list \<Rightarrow> path \<Rightarrow> path list \<Rightarrow> string \<Rightarrow> path list" where
  "collect_file lower fs lowercase_extensions root searchable_files file =
     (if list_ex (\<lambda>ext. endswith (lower file) ext) lowercase_extensions then
        (let file_path = join root file in
         if can_open fs file_path then searchable_files @ [file_path]
         else searchable_files)
      else searchable_files)"

definition collect_searchable_files ::
  "(string \<Rightarrow> string) \<Rightarrow> node \<Rightarrow> path \<Rightarrow> string list \<Rightarrow> path list" where
  "collect_searchable_files lower fs assets_dir extensions_to_check =
     (let lowercase_extensions = map lower extensions_to_check in
      foldl (\<lambda>searchable_files (root, dirs, files).
               foldl (collect_file lower fs lowercase_extensions root) searchable_files files)
        [] (os_walk fs assets_dir))"

subsection \<open>\<^verbatim>\<open>find_references_to_guid\<close>\<close>

text \<open>
  The loop over the corpus.  Besides the flag it returns the files it tried to open, in
  order, so that what the loop reads can be stated.
\<close>

fun scan_files :: "node \<Rightarrow> string \<Rightarrow> path list \<Rightarrow> bool \<times> path list" where
  "scan_files fs guid [] = (False, [])"
| "scan_files fs guid (file_path # rest) =
     (case read_text fs file_path of
        Some content \<Rightarrow>
          if contains content guid then (True, [file_path])
          else (case scan_files fs guid rest of (found, opened) \<Rightarrow> (found, file_path # opened))
      | None \<Rightarrow>
          (case scan_files fs guid rest of (found, opened) \<Rightarrow> (found, file_path # opened)))"

definition find_references_to_guid ::
  "node \<Rightarrow> string \<times> path list \<times> path \<Rightarrow> (path \<times> bool) \<times> path list" where
  "find_references_to_guid fs args =
     (case args of (guid, searchable_files, asset_path) \<Rightarrow>
        (case scan_files fs guid searchable_files of
           (found, opened) \<Rightarrow> ((asset_path, found), opened)))"

subsection \<open>\<^verbatim>\<open>main\<close>\<close>

text \<open>
  \<^verbatim>\<open>pool.imap_unordered(f, xs)\<close> yields the results in the order in which the work items
  complete.  That order is an input of the model: \<open>completion\<close> lists the indices of the
  work items in completion order.  The pool completes each item exactly once, which is
  \<open>valid_completion\<close>: the indices are a permutation of the positions of the list, so no
  index lies outside it.
\<close>

definition imap_unordered :: "('a \<Rightarrow> 'b) \<Rightarrow> 'a list \<Rightarrow> nat list \<Rightarrow> 'b list" where
  "imap_unordered f xs completion = map (\<lambda>i. f (xs ! i)) completion"

definition valid_completion :: "'a list \<Rightarrow> nat list \<Rightarrow> bool" where
  "valid_completion xs completion = (mset completion = mset [0..<length xs])"

record args =
  dir :: path
  processes :: int
  extensions :: "string list"

definition search_args ::
  "(string \<times> path) list \<Rightarrow> path list \<Rightarrow> (string \<times> path list \<times> path) list" where
  "search_args assets_to_check searchable_files =
     map (\<lambda>(guid, asset_path). (guid, searchable_files, asset_path)) assets_to_check"

text \<open>The loop that consumes the results: \<^verbatim>\<open>if not result[1]: unused_assets.append(result[0])\<close>.\<close>

definition unused_of :: "(path \<times> bool) list \<Rightarrow> path list" where
  "unused_of results = map fst (filter (\<lambda>result. \<not> snd result) results)"

text \<open>
  \<open>main\<close> up to the report: the value is the list \<^verbatim>\<open>unused_assets\<close>, or the error after
  which the tool returns early.  Printing is left out.
\<close>

definition main :: "(string \<Rightarrow> string) \<Rightarrow> node \<Rightarrow> args \<Rightarrow> nat list \<Rightarrow> error + path list" where
  "main lower fs a completion =
     (if processes a < 1 \<or> processes a > 32 then Inl InvalidProcesses
      else if \<not> isdir fs (dir a) then Inl NotADirectory
      else
        (case find_assets_dir fs (dir a) of
           Inl e \<Rightarrow> Inl e
         | Inr assets_dir \<Rightarrow>
             (let assets_to_check = find_assets_to_check fs (dir a);
                  searchable_files = collect_searchable_files lower fs assets_dir (extensions a)
              in Inr (unused_of
                       (imap_unordered (\<lambda>w. fst (find_references_to_guid fs w))
                          (search_args assets_to_check searchable_files) completion)))))"

section \<open>Notions used to state the properties\<close>

text \<open>
  The pair \<open>(identifier, asset path)\<close> that the loop body of \<^verbatim>\<open>find_assets_to_check\<close>
  stores for a file of the walk, if it stores one: the name ends with \<^verbatim>\<open>.meta\<close>, the
  described asset exists and is not a directory, and an identifier is extracted.
\<close>

definition sidecar_entry :: "node \<Rightarrow> path \<Rightarrow> string \<Rightarrow> (string \<times> path) option" where
  "sidecar_entry fs root file =
     (if endswith file ''.meta''
         \<and> exists_path fs (join root (take (length file - 5) file))
         \<and> \<not> isdir fs (join root (take (length file - 5) file))
      then (case get_guid_from_meta fs (join root file) of
              None \<Rightarrow> None
            | Some guid \<Rightarrow>
                if guid \<noteq> [] then Some (guid, join root (take (length file - 5) file)) else None)
      else None)"

definition record_entry :: "(string \<times> path) list \<Rightarrow> (string \<times> path) option \<Rightarrow> (string \<times> path) list" where
  "record_entry idx e = (case e of None \<Rightarrow> idx | Some (g, a) \<Rightarrow> AList.update g a idx)"

text \<open>All files of the walk in the order in which the nested loops visit them.\<close>

definition enumerated_files :: "node \<Rightarrow> path \<Rightarrow> (path \<times> string) list" where
  "enumerated_files fs dir_path =
     concat (map (\<lambda>(root, dirs, files). map (Pair root) files) (os_walk fs dir_path))"

text \<open>The sidecar file of an asset: its name with \<^verbatim>\<open>.meta\<close> appended.\<close>

definition sidecar_of :: "path \<Rightarrow> path" where
  "sidecar_of a = butlast a @ [last a @ ''.meta'']"

text \<open>What holds of every entry of the index (see \<open>index_entries_ok\<close> below).\<close>

definition entry_ok :: "node \<Rightarrow> string \<times> path \<Rightarrow> bool" where
  "entry_ok fs e =
     (snd e \<noteq> [] \<and> last (snd e) \<noteq> [] \<and> exists_path fs (snd e) \<and> \<not> isdir fs (snd e)
      \<and> get_guid_from_meta fs (sidecar_of (snd e)) = Some (fst e))"

text \<open>The asset paths of the index whose identifier the scan of the corpus does not find.\<close>

definition unreferenced :: "node \<Rightarrow> path list \<Rightarrow> (string \<times> path) list \<Rightarrow> path list" where
  "unreferenced fs corpus idx =
     map snd (filter (\<lambda>e. \<not> fst (scan_files fs (fst e) corpus)) idx)"

section \<open>Example project trees\<close>

definition guid_a :: string where
  "guid_a = ''aaaaaaaaaaaaaaaaaaaaaaaaaaaaaaaa''"

definition guid_b :: string where
  "guid_b = ''bbbbbbbbbbbbbbbbbbbbbbbbbbbbbbbb''"

definition guid_c :: string where
  "guid_c = ''0123456789abcdef0123456789abcdef''"

definition in_assets :: "string \<Rightarrow> path" where
  "in_assets name = [''proj'', ''Assets'', name]"

text \<open>Scenario A of the specification: \<^verbatim>\<open>foo.prefab\<close> mentions the identifier of \<^verbatim>\<open>bar.mat\<close>.\<close>

definition project_a :: node where
  "project_a =
     Dir [(''proj'', Dir [(''Assets'', Dir
       [(''foo.prefab'', File (Text (''ref: '' @ guid_b))),
        (''foo.prefab.meta'', File (Text (''guid: '' @ guid_a @ '' x''))),
        (''bar.mat'', File (Text ''shader'')),
        (''bar.mat.meta'', File (Text (''v: 2 guid: '' @ guid_b)))])])]"

definition args_a :: args where
  "args_a = \<lparr>dir = [''proj'', ''Assets''], processes = 8, extensions = [''.prefab'', ''.MAT'']\<rparr>"

definition args_mat :: args where
  "args_mat = \<lparr>dir = [''proj'', ''Assets''], processes = 1, extensions = [''.mat'']\<rparr>"

definition args_outside :: args where
  "args_outside = \<lparr>dir = [''proj''], processes = 8, extensions = [''.mat'']\<rparr>"

text \<open>The marker directory lies in the filesystem root itself.\<close>

definition project_root_marker :: node where
  "project_root_marker = Dir [(''Assets'', Dir []), (''game'', Dir [(''Levels'', Dir [])])]"

text \<open>Corpus files of every kind: undecodable, not openable, and text with and without the
  identifier \<open>guid_a\<close>.\<close>

definition project_scan :: node where
  "project_scan =
     Dir [(''proj'', Dir [(''Assets'', Dir
       [(''blob.mat'', File Binary),
        (''locked.mat'', File Unopenable),
        (''miss.mat'', File (Text ''nothing here'')),
        (''hit.mat'', File (Text (''m_Shader: '' @ guid_a @ '' end''))),
        (''later.mat'', File (Text guid_a))])])]"

text \<open>Two sidecar files that declare the same identifier.\<close>

definition project_dup :: node where
  "project_dup =
     Dir [(''proj'', Dir [(''Assets'', Dir
       [(''one.mat'', File (Text ''1'')),
        (''one.mat.meta'', File (Text (''guid: '' @ guid_a))),
        (''two.mat.meta'', File (Text (''guid: '' @ guid_a))),
        (''two.mat'', File (Text ''2''))])])]"

text \<open>A folder with a sidecar, a sidecar without its asset, and a regular asset.\<close>

definition project_orphans :: node where
  "project_orphans =
     Dir [(''proj'', Dir [(''Assets'', Dir
       [(''Textures'', Dir []),
        (''Textures.meta'', File (Text (''guid: '' @ guid_b))),
        (''ghost.mat.meta'', File (Text (''guid: '' @ guid_c))),
        (''real.mat'', File (Text ''shader'')),
        (''real.mat.meta'', File (Text (''guid: '' @ guid_a)))])])]"

text \<open>Sidecar contents: a malformed field before two well-formed ones, and a malformed one alone.\<close>

definition project_meta :: node where
  "project_meta =
     Dir [(''good.mat.meta'', File (Text (''guid: ABC guid: '' @ guid_a @ '' guid: '' @ guid_b))),
          (''bad.mat'', File (Text ''shader'')),
          (''bad.mat.meta'', File (Text ''guid: 0123''))]"

text \<open>
  An asset that contains its own identifier, inside and outside the \<^verbatim>\<open>Assets\<close> directory.
  The asset inside is named \<^verbatim>\<open>a.m\<close>, U+00C4 (capital A with diaeresis), \<^verbatim>\<open>t\<close>, and the
  configured extension is \<^verbatim>\<open>.m\<close>, U+00E4 (the small letter), \<^verbatim>\<open>t\<close>.
\<close>

definition name_self :: string where
  "name_self = ''a.m'' @ [CHR 0xC4] @ ''t''"

definition ext_self :: string where
  "ext_self = ''.m'' @ [CHR 0xE4] @ ''t''"

definition project_self :: node where
  "project_self =
     Dir [(''proj'', Dir [(''Assets'', Dir
       [(name_self, File (Text (''me: '' @ guid_a))),
        (name_self @ ''.meta'', File (Text (''guid: '' @ guid_a)))])])]"

definition args_self :: args where
  "args_self = \<lparr>dir = [''proj'', ''Assets''], processes = 8, extensions = [ext_self]\<rparr>"

definition project_outside :: node where
  "project_outside =
     Dir [(''proj'', Dir
       [(''Assets'', Dir []),
        (''Extra'', Dir
          [(''self.mat'', File (Text (''me: '' @ guid_a))),
           (''self.mat.meta'', File (Text (''guid: '' @ guid_a)))])])]"

section \<open>Auxiliary lemmas\<close>

lemma startswith_append: "startswith (g @ post) g"
  by (simp add: startswith_def)

lemma contains_startswith: "startswith s g \<Longrightarrow> contains s g"
  by (cases s) (auto simp: startswith_def)

lemma contains_append: "contains (pre @ g @ post) g"
  by (induction pre) (simp_all add: contains_startswith startswith_append)

lemma contains_iff: "contains s g \<longleftrightarrow> (\<exists>pre post. s = pre @ g @ post)"
proof
  assume "contains s g"
  then show "\<exists>pre post. s = pre @ g @ post"
  proof (induction s)
    case Nil
    then show ?case by simp
  next
    case (Cons c cs)
    show ?case
    proof (cases "startswith (c # cs) g")
      case True
      then have "c # cs = [] @ g @ drop (length g) (c # cs)"
        unfolding startswith_def by (metis append_Nil append_take_drop_id)
      then show ?thesis by blast
    next
      case False
      with Cons.prems have "contains cs g" by simp
      then obtain pre post where "cs = pre @ g @ post" using Cons.IH by blast
      then have "c # cs = (c # pre) @ g @ post" by simp
      then show ?thesis by blast
    qed
  qed
next
  assume "\<exists>pre post. s = pre @ g @ post"
  then show "contains s g" using contains_append by blast
qed

lemma scan_files_first_match:
  assumes "read_text fs p = Some c" and "contains c g"
    and "\<forall>q\<in>set pre. \<forall>c'. read_text fs q = Some c' \<longrightarrow> \<not> contains c' g"
  shows "scan_files fs g (pre @ p # post) = (True, pre @ [p])"
  using assms by (induction pre) (auto split: option.splits)

lemma scan_files_not_found:
  "fst (scan_files fs g files) = False \<Longrightarrow> snd (scan_files fs g files) = files"
  by (induction files) (auto split: option.splits if_splits prod.splits)

lemma scan_files_found_iff:
  "fst (scan_files fs g files) \<longleftrightarrow> (\<exists>q\<in>set files. \<exists>c. read_text fs q = Some c \<and> contains c g)"
  by (induction files) (auto split: option.splits if_splits prod.splits)

lemma scan_files_skip_unreadable:
  "read_text fs q = None \<Longrightarrow>
   fst (scan_files fs g (pre @ q # post)) = fst (scan_files fs g (pre @ post))"
  by (simp add: scan_files_found_iff)

lemma re_search_guid_first:
  assumes "match_here (drop i s)" and "\<forall>j<i. \<not> match_here (drop j s)"
  shows "re_search_guid s = Some (take 32 (drop 6 (drop i s)))"
  using assms
proof (induction s arbitrary: i)
  case Nil
  then show ?case by (simp add: match_here_def startswith_def)
next
  case (Cons c cs)
  show ?case
  proof (cases i)
    case 0
    with Cons.prems show ?thesis by simp
  next
    case (Suc k)
    with Cons.prems have nm: "\<not> match_here (c # cs)" by (metis drop0 zero_less_Suc)
    from Suc Cons.prems have "match_here (drop k cs)" by simp
    moreover from Suc Cons.prems have "\<forall>j<k. \<not> match_here (drop j cs)"
      by (metis Suc_less_eq drop_Suc_Cons)
    ultimately have "re_search_guid cs = Some (take 32 (drop 6 (drop k cs)))"
      by (rule Cons.IH)
    with nm Suc show ?thesis by simp
  qed
qed

lemma re_search_guid_none:
  "(\<forall>i. \<not> match_here (drop i s)) \<Longrightarrow> re_search_guid s = None"
proof (induction s)
  case Nil
  then show ?case by simp
next
  case (Cons c cs)
  from Cons.prems have "\<not> match_here (c # cs)" by (metis drop0)
  moreover have "\<forall>i. \<not> match_here (drop i cs)" using Cons.prems by (metis drop_Suc_Cons)
  ultimately show ?case using Cons.IH by simp
qed

lemma match_here_token:
  assumes "length tok = 32" and "list_all is_hex tok"
  shows "match_here (''guid: '' @ tok @ post)" and "take 32 (drop 6 (''guid: '' @ tok @ post)) = tok"
  using assms by (simp_all add: match_here_def startswith_def)

lemma index_file_entry:
  "index_file fs root idx file = record_entry idx (sidecar_entry fs root file)"
  by (simp add: index_file_def sidecar_entry_def record_entry_def Let_def split: option.splits)

lemma foldl_index_file:
  "foldl (index_file fs root) idx files =
   foldl (\<lambda>i (r, f). index_file fs r i f) idx (map (Pair root) files)"
  by (induction files arbitrary: idx) simp_all

lemma foldl_flatten:
  "foldl (\<lambda>i (r, f). index_file fs r i f) acc
     (concat (map (\<lambda>(root, dirs, files). map (Pair root) files) ws)) =
   foldl (\<lambda>assets_to_check (root, dirs, files). foldl (index_file fs root) assets_to_check files)
     acc ws"
  by (induction ws arbitrary: acc) (auto simp: foldl_index_file)

lemma find_assets_to_check_flat:
  "find_assets_to_check fs d =
   foldl (\<lambda>i (r, f). index_file fs r i f) [] (enumerated_files fs d)"
  by (simp add: find_assets_to_check_def enumerated_files_def foldl_flatten)

lemma index_invariant:
  assumes "P []"
    and "\<And>idx r f. P idx \<Longrightarrow> P (index_file fs r idx f)"
  shows "P (find_assets_to_check fs d)"
proof -
  have "P idx \<Longrightarrow> P (foldl (\<lambda>i (r, f). index_file fs r i f) idx items)" for idx items
    by (induction items arbitrary: idx) (auto intro: assms(2))
  with assms(1) show ?thesis by (simp add: find_assets_to_check_flat)
qed

lemma set_update_subset: "set (AList.update k v al) \<subseteq> insert (k, v) (set al)"
  by (induction al) auto

lemma lookup_snoc:
  "lookup n (p @ [c]) =
     (case lookup n p of
        Some (Dir es) \<Rightarrow> map_of es c
      | _ \<Rightarrow> None)"
  by (induction p arbitrary: n) (auto split: node.splits option.splits)

lemma read_text_parent_isdir: "read_text fs (p @ [c]) = Some s \<Longrightarrow> isdir fs p"
  by (auto simp: read_text_def isdir_def lookup_snoc split: option.splits node.splits)

lemma endswith_split: "endswith file suf \<Longrightarrow> file = take (length file - length suf) file @ suf"
  by (metis append_take_drop_id endswith_def)

lemma sidecar_entry_ok:
  assumes "sidecar_entry fs root file = Some e"
  shows "entry_ok fs e"
proof -
  define name where "name = take (length file - 5) file"
  from assms have ew: "endswith file ''.meta''"
    and ex: "exists_path fs (join root name)" and nd: "\<not> isdir fs (join root name)"
    and gg: "get_guid_from_meta fs (join root file) = Some (fst e)"
    and ea: "snd e = join root name"
    by (auto simp: sidecar_entry_def name_def split: if_splits option.splits)
  have "length ''.meta'' = 5" by simp
  with endswith_split[OF ew] have fsplit: "file = name @ ''.meta''"
    unfolding name_def by metis
  then have jf: "join root file = root @ [name @ ''.meta'']" by (simp add: join_def)
  from gg jf obtain s where "read_text fs (root @ [name @ ''.meta'']) = Some s"
    by (auto simp: get_guid_from_meta_def split: option.splits)
  then have "isdir fs root" by (rule read_text_parent_isdir)
  with nd have ne: "name \<noteq> []" by (auto simp: join_def)
  then have "join root name = root @ [name]" by (simp add: join_def)
  with ea ex nd gg jf ne show ?thesis by (simp add: entry_ok_def sidecar_of_def)
qed

lemma index_entries_ok: "\<forall>e\<in>set (find_assets_to_check fs d). entry_ok fs e"
proof (rule index_invariant)
  show "\<forall>e\<in>set []. entry_ok fs e" by simp
next
  fix idx r f
  assume inv: "\<forall>e\<in>set idx. entry_ok fs e"
  show "\<forall>e\<in>set (index_file fs r idx f). entry_ok fs e"
  proof (cases "sidecar_entry fs r f")
    case None
    with inv show ?thesis by (simp add: index_file_entry record_entry_def)
  next
    case (Some e)
    then have "entry_ok fs e" by (rule sidecar_entry_ok)
    with inv Some set_update_subset[of "fst e" "snd e" idx] show ?thesis
      by (cases e) (auto simp: index_file_entry record_entry_def)
  qed
qed

lemma index_distinct_keys: "distinct (map fst (find_assets_to_check fs d))"
proof (rule index_invariant)
  show "distinct (map fst [])" by simp
next
  fix idx :: "(string \<times> path) list" and r f
  assume "distinct (map fst idx)"
  then show "distinct (map fst (index_file fs r idx f))"
    by (auto simp: index_file_entry record_entry_def distinct_update split: option.splits)
qed

lemma index_distinct_assets: "distinct (map snd (find_assets_to_check fs d))"
proof -
  let ?idx = "find_assets_to_check fs d"
  have d: "distinct ?idx" using index_distinct_keys[of fs d] by (rule distinct_map[THEN iffD1, THEN conjunct1])
  have "inj_on snd (set ?idx)"
  proof (rule inj_onI)
    fix x y assume x: "x \<in> set ?idx" and y: "y \<in> set ?idx" and eq: "snd x = snd y"
    from x y index_entries_ok[of fs d] have "entry_ok fs x" "entry_ok fs y" by auto
    with eq have "fst x = fst y" by (simp add: entry_ok_def)
    with eq show "x = y" by (simp add: prod_eq_iff)
  qed
  with d show ?thesis by (simp add: distinct_map)
qed

lemma imap_unordered_mset:
  assumes "valid_completion xs completion"
  shows "mset (imap_unordered f xs completion) = mset (map f xs)"
proof -
  have "mset (map (\<lambda>i. f (xs ! i)) completion) = image_mset (\<lambda>i. f (xs ! i)) (mset completion)"
    by simp
  also have "\<dots> = image_mset (\<lambda>i. f (xs ! i)) (mset [0..<length xs])"
    using assms by (simp add: valid_completion_def)
  also have "\<dots> = mset (map (\<lambda>i. f (xs ! i)) [0..<length xs])" by simp
  also have "map (\<lambda>i. f (xs ! i)) [0..<length xs] = map f xs"
    by (rule nth_equalityI) simp_all
  finally show ?thesis by (simp add: imap_unordered_def)
qed

lemma unused_of_map:
  "unused_of (map (\<lambda>w. fst (find_references_to_guid fs w)) (search_args idx corpus)) =
   unreferenced fs corpus idx"
  by (induction idx)
     (auto simp: unused_of_def unreferenced_def search_args_def find_references_to_guid_def
           split: prod.splits)

lemma unused_of_mset: "mset rs = mset rs' \<Longrightarrow> mset (unused_of rs) = mset (unused_of rs')"
  by (simp add: unused_of_def)

lemma main_unused_mset:
  assumes "valid_completion (find_assets_to_check fs (dir a)) completion"
    and "main lower fs a completion = Inr unused"
  shows "\<exists>ad. find_assets_dir fs (dir a) = Inr ad \<and>
           mset unused = mset (unreferenced fs (collect_searchable_files lower fs ad (extensions a))
                                 (find_assets_to_check fs (dir a)))"
proof -
  from assms(2) obtain ad where ad: "find_assets_dir fs (dir a) = Inr ad"
    by (auto simp: main_def split: if_splits sum.splits)
  let ?idx = "find_assets_to_check fs (dir a)"
  let ?corpus = "collect_searchable_files lower fs ad (extensions a)"
  let ?f = "\<lambda>w. fst (find_references_to_guid fs w)"
  from assms(2) ad have u: "unused = unused_of (imap_unordered ?f (search_args ?idx ?corpus) completion)"
    by (auto simp: main_def Let_def split: if_splits)
  have "valid_completion (search_args ?idx ?corpus) completion"
    using assms(1) by (simp add: valid_completion_def search_args_def)
  then have "mset (imap_unordered ?f (search_args ?idx ?corpus) completion)
           = mset (map ?f (search_args ?idx ?corpus))"
    by (rule imap_unordered_mset)
  then have "mset unused = mset (unused_of (map ?f (search_args ?idx ?corpus)))"
    unfolding u by (rule unused_of_mset)
  with ad show ?thesis by (simp add: unused_of_map)
qed

lemma unreferenced_member:
  assumes "distinct (map snd idx)" and "(g, p) \<in> set idx"
  shows "count (mset (unreferenced fs corpus idx)) p = (if fst (scan_files fs g corpus) then 0 else 1)"
  using assms
proof (induction idx)
  case Nil
  then show ?case by simp
next
  case (Cons e idx)
  show ?case
  proof (cases "e = (g, p)")
    case True
    with Cons.prems(1) have "p \<notin> snd ` set idx" by auto
    then have "p \<notin> set (unreferenced fs corpus idx)"
      by (auto simp: unreferenced_def)
    then have "count (mset (unreferenced fs corpus idx)) p = 0"
      by (simp add: count_eq_zero_iff)
    with True show ?thesis by (simp add: unreferenced_def)
  next
    case False
    with Cons.prems have in_idx: "(g, p) \<in> set idx" and d: "distinct (map snd idx)" by auto
    from in_idx have "p \<in> set (map snd idx)" by force
    with Cons.prems(1) have "snd e \<noteq> p" by auto
    with Cons.IH[OF d in_idx] show ?thesis by (simp add: unreferenced_def)
  qed
qed

lemma walk_node_complete:
  assumes "lookup n rel = Some (File f)" and "rel \<noteq> []"
  shows "\<exists>dirs files. (root @ butlast rel, dirs, files) \<in> set (walk_node root n) \<and> last rel \<in> set files"
  using assms
proof (induction rel arbitrary: n root)
  case Nil
  then show ?case by simp
next
  case (Cons c cs)
  from Cons.prems(1) obtain es m where n: "n = Dir es" and m: "map_of es c = Some m"
    and lm: "lookup m cs = Some (File f)"
    by (auto split: node.splits option.splits)
  from m have mem: "(c, m) \<in> set es" by (rule map_of_SomeD)
  let ?D = "map fst (filter (\<lambda>e. is_dir_node (snd e)) es)"
  let ?F = "map fst (filter (\<lambda>e. \<not> is_dir_node (snd e)) es)"
  show ?case
  proof (cases "cs = []")
    case True
    with lm have "m = File f" by simp
    with mem have "(c, File f) \<in> set (filter (\<lambda>e. \<not> is_dir_node (snd e)) es)"
      by (simp add: is_dir_node_def)
    then have cF: "c \<in> set ?F" by force
    have "(root, ?D, ?F) \<in> set (walk_node root n)" by (simp add: n)
    with cF True show ?thesis by (intro exI[of _ ?D] exI[of _ ?F]) simp
  next
    case False
    from Cons.IH[OF lm False, of "root @ [c]"] obtain dirs files
      where w: "((root @ [c]) @ butlast cs, dirs, files) \<in> set (walk_node (root @ [c]) m)"
        and l: "last cs \<in> set files" by blast
    from mem have "set (walk_node (root @ [c]) m) \<subseteq> set (walk_node root n)"
      unfolding n by force
    with w have "(root @ butlast (c # cs), dirs, files) \<in> set (walk_node root n)"
      using False by auto
    with l False show ?thesis by (intro exI[of _ dirs] exI[of _ files]) simp
  qed
qed

lemma lookup_append:
  "lookup n (p @ q) = (case lookup n p of None \<Rightarrow> None | Some m \<Rightarrow> lookup m q)"
  by (induction p arbitrary: n) (auto split: node.splits option.splits)

lemma os_walk_complete:
  assumes "lookup fs (ad @ rel) = Some (File f)" and "rel \<noteq> []"
  shows "\<exists>dirs files. (butlast (ad @ rel), dirs, files) \<in> set (os_walk fs ad) \<and> last (ad @ rel) \<in> set files"
proof -
  from assms(1) obtain n where n: "lookup fs ad = Some n" and l: "lookup n rel = Some (File f)"
    by (auto simp: lookup_append split: option.splits)
  from walk_node_complete[OF l assms(2), of ad] n assms(2) show ?thesis
    by (simp add: os_walk_def butlast_append)
qed

lemma collect_file_mono: "set acc \<subseteq> set (collect_file lower fs exts root acc file)"
  by (auto simp: collect_file_def Let_def)

lemma foldl_collect_file_mono: "set acc \<subseteq> set (foldl (collect_file lower fs exts root) acc files)"
proof (induction files arbitrary: acc)
  case Nil
  then show ?case by simp
next
  case (Cons x xs)
  have "set acc \<subseteq> set (collect_file lower fs exts root acc x)" by (rule collect_file_mono)
  also have "\<dots> \<subseteq> set (foldl (collect_file lower fs exts root) (collect_file lower fs exts root acc x) xs)"
    by (rule Cons.IH)
  finally show ?case by simp
qed

lemma foldl_collect_file_mem:
  assumes "file \<in> set files" and "list_ex (\<lambda>ext. endswith (lower file) ext) exts"
    and "can_open fs (join root file)"
  shows "join root file \<in> set (foldl (collect_file lower fs exts root) acc files)"
  using assms(1)
proof (induction files arbitrary: acc)
  case Nil
  then show ?case by simp
next
  case (Cons x xs)
  show ?case
  proof (cases "x = file")
    case True
    with assms(2,3) have "join root file \<in> set (collect_file lower fs exts root acc x)"
      by (simp add: collect_file_def)
    then show ?thesis using foldl_collect_file_mono by fastforce
  next
    case False
    with Cons.prems have "file \<in> set xs" by simp
    then show ?thesis using Cons.IH by simp
  qed
qed

lemma foldl_collect_walk_mono:
  "set acc \<subseteq> set (foldl (\<lambda>searchable_files (root, dirs, files).
               foldl (collect_file lower fs exts root) searchable_files files) acc ws)"
proof (induction ws arbitrary: acc)
  case Nil
  then show ?case by simp
next
  case (Cons w ws)
  obtain root dirs files where w: "w = (root, dirs, files)" by (cases w) auto
  have "set acc \<subseteq> set (foldl (collect_file lower fs exts root) acc files)"
    by (rule foldl_collect_file_mono)
  also note Cons.IH
  finally show ?case by (simp add: w)
qed

lemma foldl_collect_walk_mem:
  assumes "(root, dirs, files) \<in> set ws" and "file \<in> set files"
    and "list_ex (\<lambda>ext. endswith (lower file) ext) exts" and "can_open fs (join root file)"
  shows "join root file \<in> set (foldl (\<lambda>searchable_files (root, dirs, files).
               foldl (collect_file lower fs exts root) searchable_files files) acc ws)"
  using assms(1)
proof (induction ws arbitrary: acc)
  case Nil
  then show ?case by simp
next
  case (Cons w ws)
  show ?case
  proof (cases "w = (root, dirs, files)")
    case True
    have "join root file \<in> set (foldl (collect_file lower fs exts root) acc files)"
      using assms(2,3,4) by (rule foldl_collect_file_mem)
    then show ?thesis using foldl_collect_walk_mono True by fastforce
  next
    case False
    with Cons.prems have "(root, dirs, files) \<in> set ws" by simp
    then show ?thesis using Cons.IH by simp
  qed
qed

lemma collect_searchable_files_mem:
  assumes "(root, dirs, files) \<in> set (os_walk fs ad)" and "file \<in> set files"
    and "list_ex (\<lambda>ext. endswith (lower file) ext) (map lower exts)" and "can_open fs (join root file)"
  shows "join root file \<in> set (collect_searchable_files lower fs ad exts)"
  unfolding collect_searchable_files_def Let_def
  using assms by (rule foldl_collect_walk_mem)

lemma map_of_foldl_keep:
  assumes "\<forall>it\<in>set ys. \<forall>a. sidecar_entry fs (fst it) (snd it) \<noteq> Some (g, a)"
  shows "map_of (foldl (\<lambda>i (r, f). index_file fs r i f) idx ys) g = map_of idx g"
  using assms
proof (induction ys arbitrary: idx)
  case Nil
  then show ?case by simp
next
  case (Cons y ys)
  obtain r f where y: "y = (r, f)" by (cases y) auto
  from Cons.prems y have no: "\<forall>a. sidecar_entry fs r f \<noteq> Some (g, a)" by simp
  have "map_of (index_file fs r idx f) g = map_of idx g"
  proof (cases "sidecar_entry fs r f")
    case None
    then show ?thesis by (simp add: index_file_entry record_entry_def)
  next
    case (Some e)
    with no have "fst e \<noteq> g" by (cases e) auto
    with Some show ?thesis
      by (cases e) (simp add: index_file_entry record_entry_def update_conv')
  qed
  moreover from Cons.prems have "\<forall>it\<in>set ys. \<forall>a. sidecar_entry fs (fst it) (snd it) \<noteq> Some (g, a)"
    by simp
  ultimately show ?case using Cons.IH y by simp
qed

lemma map_of_foldl_last:
  assumes "sidecar_entry fs r2 f2 = Some (g, a2)"
    and "\<forall>it\<in>set ys. \<forall>a. sidecar_entry fs (fst it) (snd it) \<noteq> Some (g, a)"
  shows "map_of (foldl (\<lambda>i (r, f). index_file fs r i f) idx (xs @ (r2, f2) # ys)) g = Some a2"
proof -
  let ?step = "\<lambda>i (r, f). index_file fs r i f"
  have "map_of (foldl ?step idx (xs @ (r2, f2) # ys)) g
      = map_of (index_file fs r2 (foldl ?step idx xs) f2) g"
    using map_of_foldl_keep[OF assms(2)] by simp
  also have "\<dots> = Some a2"
    using assms(1) by (simp add: index_file_entry record_entry_def update_conv')
  finally show ?thesis .
qed

lemma filter_key_distinct:
  "distinct (map fst al) \<Longrightarrow> map_of al k = Some v \<Longrightarrow> filter (\<lambda>e. fst e = k) al = [(k, v)]"
proof (induction al)
  case Nil
  then show ?case by simp
next
  case (Cons e al)
  show ?case
  proof (cases "fst e = k")
    case True
    with Cons.prems have "e = (k, v)" by (cases e) auto
    moreover from True Cons.prems(1) have "k \<notin> fst ` set al" by simp
    then have "\<forall>x\<in>set al. fst x \<noteq> k" by force
    then have "filter (\<lambda>e. fst e = k) al = []" by (simp add: filter_empty_conv)
    ultimately show ?thesis by simp
  next
    case False
    with Cons show ?thesis by (cases e) auto
  qed
qed

lemma find_assets_dir_isdir: "find_assets_dir fs p = Inr d \<Longrightarrow> isdir fs d"
proof (induction fs p rule: find_assets_dir.induct)
  case (1 fs current)
  then show ?case
    by (subst (asm) (2) find_assets_dir.simps) (auto split: if_splits)
qed

lemma match_here_length: "match_here s \<Longrightarrow> 38 \<le> length s"
  by (auto simp: match_here_def)

lemma find_references_to_guid_eq:
  "find_references_to_guid fs (guid, files, asset_path) =
     ((asset_path, fst (scan_files fs guid files)), snd (scan_files fs guid files))"
  by (simp add: find_references_to_guid_def split: prod.splits)

lemma all_less_list_all: "(\<forall>i<n. P i) = list_all P [0..<n]"
  by (auto simp: list_all_iff)

lemma main_report:
  assumes "valid_completion (find_assets_to_check fs (dir a)) completion"
    and "main lower fs a completion = Inr unused"
    and "find_assets_dir fs (dir a) = Inr assets_dir"
    and "(guid, asset_path) \<in> set (find_assets_to_check fs (dir a))"
  shows "count (mset unused) asset_path =
     (if fst (scan_files fs guid (collect_searchable_files lower fs assets_dir (extensions a)))
      then 0 else 1)"
proof -
  from main_unused_mset[OF assms(1,2)] assms(3)
  have "mset unused = mset (unreferenced fs (collect_searchable_files lower fs assets_dir (extensions a))
                              (find_assets_to_check fs (dir a)))" by auto
  with unreferenced_member[OF index_distinct_assets assms(4)] show ?thesis by simp
qed

section \<open>The claims\<close>

text \<open>
  In the theorems about the whole run, \<open>completion\<close> is the order in which the pool
  completes the work items, \<open>unused\<close> is the list \<^verbatim>\<open>unused_assets\<close> that \<open>main\<close>
  reports (the Result Set), the Candidate Index is \<open>find_assets_to_check fs (dir a)\<close> and the
  corpus is \<open>collect_searchable_files lower fs assets_dir (extensions a)\<close>, where \<open>assets_dir\<close> is
  the directory that \<open>find_assets_dir\<close> returns.
\<close>

subsection \<open>C1: a referenced asset is not reported\<close>

text \<open>
  Claim C1.  Let \<open>(guid, asset_path)\<close> be an entry of the Candidate Index.  When some
  file \<open>q\<close> of the corpus can be read as text and its text has \<open>guid\<close> as a substring
  (\<open>content = l @ guid @ r\<close>), the search for this work item returns
  \<open>(asset_path, True)\<close>, and \<open>asset_path\<close> is not in the Result Set, whatever the order in
  which the work items complete.
\<close>

theorem referenced_asset_not_reported:
  assumes "valid_completion (find_assets_to_check fs (dir a)) completion"
    and "main lower fs a completion = Inr unused"
    and "find_assets_dir fs (dir a) = Inr assets_dir"
    and "(guid, asset_path) \<in> set (find_assets_to_check fs (dir a))"
    and "q \<in> set (collect_searchable_files lower fs assets_dir (extensions a))"
    and "read_text fs q = Some content"
    and "content = l @ guid @ r"
  shows "fst (find_references_to_guid fs
            (guid, collect_searchable_files lower fs assets_dir (extensions a), asset_path))
           = (asset_path, True)
         \<and> asset_path \<notin> set unused"
proof -
  let ?corpus = "collect_searchable_files lower fs assets_dir (extensions a)"
  from assms(7) have "contains content guid" using contains_iff by blast
  with assms(5,6) have found: "fst (scan_files fs guid ?corpus)"
    by (auto simp: scan_files_found_iff)
  with main_report[OF assms(1-4)] have "count (mset unused) asset_path = 0" by simp
  then have "asset_path \<notin> set unused" by (simp add: count_eq_zero_iff)
  with found show ?thesis by (simp add: find_references_to_guid_eq)
qed

theorem referenced_asset_not_reported_witness:
  "valid_completion (find_assets_to_check project_a (dir args_a)) [1, 0]
   \<and> main lower_latin1 project_a args_a [1, 0] = Inr [in_assets ''foo.prefab'']
   \<and> find_assets_dir project_a (dir args_a) = Inr [''proj'', ''Assets'']
   \<and> (guid_b, in_assets ''bar.mat'') \<in> set (find_assets_to_check project_a (dir args_a))
   \<and> in_assets ''foo.prefab''
        \<in> set (collect_searchable_files lower_latin1 project_a [''proj'', ''Assets''] (extensions args_a))
   \<and> read_text project_a (in_assets ''foo.prefab'') = Some (''ref: '' @ guid_b @ [])
   \<and> fst (find_references_to_guid project_a
        (guid_b, collect_searchable_files lower_latin1 project_a [''proj'', ''Assets''] (extensions args_a),
         in_assets ''bar.mat''))
       = (in_assets ''bar.mat'', True)
   \<and> in_assets ''bar.mat'' \<notin> set [in_assets ''foo.prefab'']"
proof -
  have v: "valid_completion (find_assets_to_check project_a (dir args_a)) [1, 0]" by code_simp
  have m: "main lower_latin1 project_a args_a [1, 0] = Inr [in_assets ''foo.prefab'']" by code_simp
  have d: "find_assets_dir project_a (dir args_a) = Inr [''proj'', ''Assets'']" by code_simp
  have i: "(guid_b, in_assets ''bar.mat'') \<in> set (find_assets_to_check project_a (dir args_a))"
    by code_simp
  have q: "in_assets ''foo.prefab''
        \<in> set (collect_searchable_files lower_latin1 project_a [''proj'', ''Assets''] (extensions args_a))"
    by code_simp
  have r: "read_text project_a (in_assets ''foo.prefab'') = Some (''ref: '' @ guid_b @ [])"
    by code_simp
  from referenced_asset_not_reported[OF v m d i q r refl] v m d i q r show ?thesis by blast
qed

subsection \<open>C2: an unreferenced asset is reported exactly once\<close>

text \<open>
  Claim C2.  Let \<open>(guid, asset_path)\<close> be an entry of the Candidate Index.  When no
  readable file of the corpus has \<open>guid\<close> as a substring of its text, \<open>asset_path\<close> occurs
  exactly once in the Result Set, whatever the order in which the work items complete.
\<close>

theorem unreferenced_asset_reported_once:
  assumes "valid_completion (find_assets_to_check fs (dir a)) completion"
    and "main lower fs a completion = Inr unused"
    and "find_assets_dir fs (dir a) = Inr assets_dir"
    and "(guid, asset_path) \<in> set (find_assets_to_check fs (dir a))"
    and "\<forall>q\<in>set (collect_searchable_files lower fs assets_dir (extensions a)).
           \<forall>content. read_text fs q = Some content \<longrightarrow> \<not> (\<exists>l r. content = l @ guid @ r)"
  shows "count_list unused asset_path = 1"
proof -
  let ?corpus = "collect_searchable_files lower fs assets_dir (extensions a)"
  from assms(5) have "\<not> fst (scan_files fs guid ?corpus)"
    by (simp add: scan_files_found_iff contains_iff)
  with main_report[OF assms(1-4)] have "count (mset unused) asset_path = 1" by simp
  then show ?thesis by (simp add: count_mset)
qed

theorem unreferenced_asset_reported_once_witness:
  "valid_completion (find_assets_to_check project_a (dir args_a)) [1, 0]
   \<and> main lower_latin1 project_a args_a [1, 0] = Inr [in_assets ''foo.prefab'']
   \<and> find_assets_dir project_a (dir args_a) = Inr [''proj'', ''Assets'']
   \<and> (guid_a, in_assets ''foo.prefab'') \<in> set (find_assets_to_check project_a (dir args_a))
   \<and> collect_searchable_files lower_latin1 project_a [''proj'', ''Assets''] (extensions args_a)
       = [in_assets ''foo.prefab'', in_assets ''bar.mat'']
   \<and> read_text project_a (in_assets ''foo.prefab'') = Some (''ref: '' @ guid_b)
   \<and> read_text project_a (in_assets ''bar.mat'') = Some ''shader''
   \<and> \<not> contains (''ref: '' @ guid_b) guid_a \<and> \<not> contains ''shader'' guid_a
   \<and> count_list [in_assets ''foo.prefab''] (in_assets ''foo.prefab'') = 1"
proof -
  let ?corpus = "collect_searchable_files lower_latin1 project_a [''proj'', ''Assets''] (extensions args_a)"
  have v: "valid_completion (find_assets_to_check project_a (dir args_a)) [1, 0]" by code_simp
  have m: "main lower_latin1 project_a args_a [1, 0] = Inr [in_assets ''foo.prefab'']" by code_simp
  have d: "find_assets_dir project_a (dir args_a) = Inr [''proj'', ''Assets'']" by code_simp
  have i: "(guid_a, in_assets ''foo.prefab'') \<in> set (find_assets_to_check project_a (dir args_a))"
    by code_simp
  have c: "?corpus = [in_assets ''foo.prefab'', in_assets ''bar.mat'']" by code_simp
  have r1: "read_text project_a (in_assets ''foo.prefab'') = Some (''ref: '' @ guid_b)"
    by code_simp
  have r2: "read_text project_a (in_assets ''bar.mat'') = Some ''shader''" by code_simp
  have n1: "\<not> contains (''ref: '' @ guid_b) guid_a" by code_simp
  have n2: "\<not> contains ''shader'' guid_a" by code_simp
  have h: "\<forall>q\<in>set ?corpus. \<forall>content. read_text project_a q = Some content
             \<longrightarrow> \<not> (\<exists>l r. content = l @ guid_a @ r)"
    unfolding c using r1 r2 n1 n2 by (simp add: contains_iff)
  from unreferenced_asset_reported_once[OF v m d i h] v m d i c r1 r2 n1 n2 show ?thesis by blast
qed

subsection \<open>C3: undecodable files and the corpus\<close>

text \<open>
  Claim C3 says that a file selected by the extension filter whose contents do not decode as
  text is left out of the list that \<^verbatim>\<open>collect_searchable_files\<close> returns.  The function
  only opens the file and never reads it, and opening decodes nothing: the file
  \<^verbatim>\<open>blob.mat\<close> of \<open>project_scan\<close>, whose read raises a decoding error, is in the
  returned list.
\<close>

theorem collect_searchable_files_keeps_undecodable:
  "read_text project_scan [''proj'', ''Assets'', ''blob.mat''] = None
   \<and> lookup project_scan [''proj'', ''Assets'', ''blob.mat''] = Some (File Binary)
   \<and> [''proj'', ''Assets'', ''blob.mat'']
        \<in> set (collect_searchable_files lower_latin1 project_scan [''proj'', ''Assets''] [''.mat''])"
  by code_simp

subsection \<open>C4: locating the \<^verbatim>\<open>Assets\<close> directory\<close>

text \<open>
  Claim C4 says that \<^verbatim>\<open>find_assets_dir\<close> examines the start directory and every
  ancestor up to and including the filesystem root.  The loop ends as soon as
  \<open>current\<close> is the root, before the root is examined: with the marker directory
  \<^verbatim>\<open>/Assets\<close> present, the search from \<^verbatim>\<open>/game/Levels\<close> and the search from the
  root itself both raise \<open>FileNotFoundError\<close>.
\<close>

theorem find_assets_dir_misses_root_marker:
  "isdir project_root_marker [''Assets'']
   \<and> find_assets_dir project_root_marker [''game'', ''Levels''] = Inl FileNotFoundError
   \<and> find_assets_dir project_root_marker [] = Inl FileNotFoundError"
  by code_simp

subsection \<open>C5: two sidecar files with the same identifier\<close>

text \<open>
  Claim C5.  Let two files of the walk, \<open>(r1, f1)\<close> before \<open>(r2, f2)\<close> in enumeration
  order, both be sidecar files for which the loop body stores the identifier \<open>guid\<close>, for
  the assets \<open>a1\<close> and \<open>a2\<close>, and let no file enumerated after \<open>(r2, f2)\<close> store
  \<open>guid\<close>.  Then the Candidate Index that \<^verbatim>\<open>find_assets_to_check\<close> returns has exactly
  one entry with the key \<open>guid\<close>, and it maps to \<open>a2\<close>, the asset of the sidecar processed
  last.  The function is total: no error is raised.
\<close>

theorem duplicate_identifier_last_write_wins:
  assumes "enumerated_files fs dir_path = ws @ (r1, f1) # xs @ (r2, f2) # ys"
    and "sidecar_entry fs r1 f1 = Some (guid, a1)"
    and "sidecar_entry fs r2 f2 = Some (guid, a2)"
    and "\<forall>it\<in>set ys. \<forall>a. sidecar_entry fs (fst it) (snd it) \<noteq> Some (guid, a)"
  shows "filter (\<lambda>e. fst e = guid) (find_assets_to_check fs dir_path) = [(guid, a2)]"
proof -
  have "find_assets_to_check fs dir_path =
        foldl (\<lambda>i (r, f). index_file fs r i f) [] ((ws @ (r1, f1) # xs) @ (r2, f2) # ys)"
    using assms(1) by (simp add: find_assets_to_check_flat)
  then have "map_of (find_assets_to_check fs dir_path) guid = Some a2"
    using map_of_foldl_last[OF assms(3,4)] by simp
  with index_distinct_keys[of fs dir_path] show ?thesis by (rule filter_key_distinct)
qed

theorem duplicate_identifier_last_write_wins_witness:
  "enumerated_files project_dup [''proj'', ''Assets'']
     = [([''proj'', ''Assets''], ''one.mat'')] @ ([''proj'', ''Assets''], ''one.mat.meta'')
       # [] @ ([''proj'', ''Assets''], ''two.mat.meta'') # [([''proj'', ''Assets''], ''two.mat'')]
   \<and> sidecar_entry project_dup [''proj'', ''Assets''] ''one.mat.meta''
       = Some (guid_a, in_assets ''one.mat'')
   \<and> sidecar_entry project_dup [''proj'', ''Assets''] ''two.mat.meta''
       = Some (guid_a, in_assets ''two.mat'')
   \<and> sidecar_entry project_dup [''proj'', ''Assets''] ''two.mat'' = None
   \<and> filter (\<lambda>e. fst e = guid_a) (find_assets_to_check project_dup [''proj'', ''Assets''])
       = [(guid_a, in_assets ''two.mat'')]"
proof -
  let ?fs = project_dup
  let ?A = "[''proj'', ''Assets'']"
  have e: "enumerated_files ?fs ?A
     = [(?A, ''one.mat'')] @ (?A, ''one.mat.meta'') # [] @ (?A, ''two.mat.meta'') # [(?A, ''two.mat'')]"
    by code_simp
  have s1: "sidecar_entry ?fs ?A ''one.mat.meta'' = Some (guid_a, in_assets ''one.mat'')" by code_simp
  have s2: "sidecar_entry ?fs ?A ''two.mat.meta'' = Some (guid_a, in_assets ''two.mat'')" by code_simp
  have s3: "sidecar_entry ?fs ?A ''two.mat'' = None" by code_simp
  from s3 have n: "\<forall>it\<in>set [(?A, ''two.mat'')]. \<forall>a. sidecar_entry ?fs (fst it) (snd it) \<noteq> Some (guid_a, a)"
    by simp
  from duplicate_identifier_last_write_wins[OF e s1 s2 n] e s1 s2 s3 show ?thesis by blast
qed

subsection \<open>C6: the search for one identifier\<close>

text \<open>
  Claim C6.  (1) When \<open>p\<close> is the first file of the corpus list that can be read and
  whose text has the identifier as a substring, \<^verbatim>\<open>find_references_to_guid\<close> returns
  \<open>(asset_path, True)\<close> and has opened the files up to and including \<open>p\<close> and none of
  the files after it.  (2) When it returns \<open>(asset_path, False)\<close> it has opened every file
  of the list, and no readable file has the identifier as a substring.  (3) A file whose read
  fails counts as a file without a match: the answer is the one for the list without that
  file.  The function is total, so no read error aborts the search.
\<close>

theorem find_references_to_guid_short_circuit:
  "(read_text fs p = Some content \<and> (\<exists>l r. content = l @ guid @ r)
      \<and> (\<forall>q\<in>set pre. \<forall>c. read_text fs q = Some c \<longrightarrow> \<not> (\<exists>l r. c = l @ guid @ r))
     \<longrightarrow> find_references_to_guid fs (guid, pre @ p # post, asset_path)
           = ((asset_path, True), pre @ [p]))
   \<and> (fst (find_references_to_guid fs (guid, files, asset_path)) = (asset_path, False)
     \<longrightarrow> snd (find_references_to_guid fs (guid, files, asset_path)) = files
         \<and> (\<forall>q\<in>set files. \<forall>c. read_text fs q = Some c \<longrightarrow> \<not> (\<exists>l r. c = l @ guid @ r)))
   \<and> (read_text fs q = None
     \<longrightarrow> fst (find_references_to_guid fs (guid, before @ q # after, asset_path))
         = fst (find_references_to_guid fs (guid, before @ after, asset_path)))"
proof (intro conjI impI)
  assume a: "read_text fs p = Some content \<and> (\<exists>l r. content = l @ guid @ r)
      \<and> (\<forall>q\<in>set pre. \<forall>c. read_text fs q = Some c \<longrightarrow> \<not> (\<exists>l r. c = l @ guid @ r))"
  then have "scan_files fs guid (pre @ p # post) = (True, pre @ [p])"
    by (intro scan_files_first_match[of fs p content]) (auto simp: contains_iff)
  then show "find_references_to_guid fs (guid, pre @ p # post, asset_path)
           = ((asset_path, True), pre @ [p])"
    by (simp add: find_references_to_guid_eq)
next
  assume "fst (find_references_to_guid fs (guid, files, asset_path)) = (asset_path, False)"
  then have nf: "fst (scan_files fs guid files) = False"
    by (simp add: find_references_to_guid_eq)
  then have "snd (scan_files fs guid files) = files" by (rule scan_files_not_found)
  then show "snd (find_references_to_guid fs (guid, files, asset_path)) = files"
    by (simp add: find_references_to_guid_eq)
  from nf show "\<forall>q\<in>set files. \<forall>c. read_text fs q = Some c \<longrightarrow> \<not> (\<exists>l r. c = l @ guid @ r)"
    by (simp add: scan_files_found_iff contains_iff)
next
  assume "read_text fs q = None"
  then have "fst (scan_files fs guid (before @ q # after)) = fst (scan_files fs guid (before @ after))"
    by (rule scan_files_skip_unreadable)
  then show "fst (find_references_to_guid fs (guid, before @ q # after, asset_path))
         = fst (find_references_to_guid fs (guid, before @ after, asset_path))"
    by (simp add: find_references_to_guid_eq)
qed

theorem find_references_to_guid_short_circuit_witness:
  "read_text project_scan (in_assets ''hit.mat'') = Some (''m_Shader: '' @ guid_a @ '' end'')
   \<and> read_text project_scan (in_assets ''blob.mat'') = None
   \<and> read_text project_scan (in_assets ''locked.mat'') = None
   \<and> read_text project_scan (in_assets ''miss.mat'') = Some ''nothing here''
   \<and> find_references_to_guid project_scan
        (guid_a, map in_assets [''blob.mat'', ''locked.mat'', ''miss.mat'', ''hit.mat'', ''later.mat''],
         in_assets ''x.png'')
       = ((in_assets ''x.png'', True),
          map in_assets [''blob.mat'', ''locked.mat'', ''miss.mat'', ''hit.mat''])
   \<and> fst (find_references_to_guid project_scan
        (guid_a, map in_assets [''blob.mat'', ''miss.mat''], in_assets ''x.png''))
       = (in_assets ''x.png'', False)
   \<and> snd (find_references_to_guid project_scan
        (guid_a, map in_assets [''blob.mat'', ''miss.mat''], in_assets ''x.png''))
       = map in_assets [''blob.mat'', ''miss.mat'']
   \<and> fst (find_references_to_guid project_scan
        (guid_a, map in_assets [''miss.mat'', ''blob.mat'', ''hit.mat''], in_assets ''x.png''))
       = fst (find_references_to_guid project_scan
        (guid_a, map in_assets [''miss.mat'', ''hit.mat''], in_assets ''x.png''))"
proof -
  let ?fs = project_scan
  let ?c = "''m_Shader: '' @ guid_a @ '' end''"
  let ?pre = "map in_assets [''blob.mat'', ''locked.mat'', ''miss.mat'']"
  let ?files = "map in_assets [''blob.mat'', ''miss.mat'']"
  let ?a = "in_assets ''x.png''"
  have rh: "read_text ?fs (in_assets ''hit.mat'') = Some ?c" by code_simp
  have rb: "read_text ?fs (in_assets ''blob.mat'') = None" by code_simp
  have rl: "read_text ?fs (in_assets ''locked.mat'') = None" by code_simp
  have rm: "read_text ?fs (in_assets ''miss.mat'') = Some ''nothing here''" by code_simp
  have "\<not> contains ''nothing here'' guid_a" by code_simp
  then have nm: "\<not> (\<exists>l r. ''nothing here'' = l @ guid_a @ r)" by (simp add: contains_iff)
  have sub: "\<exists>l r. ?c = l @ guid_a @ r" by blast
  have h3: "\<forall>q\<in>set ?pre. \<forall>c. read_text ?fs q = Some c \<longrightarrow> \<not> (\<exists>l r. c = l @ guid_a @ r)"
    using rb rl rm nm by simp
  have h4: "fst (find_references_to_guid ?fs (guid_a, ?files, ?a)) = (?a, False)" by code_simp
  note t = find_references_to_guid_short_circuit
      [where fs = ?fs and p = "in_assets ''hit.mat''" and content = ?c and guid = guid_a
         and pre = ?pre and post = "[in_assets ''later.mat'']" and asset_path = ?a
         and files = ?files and q = "in_assets ''blob.mat''"
         and before = "[in_assets ''miss.mat'']" and after = "[in_assets ''hit.mat'']"]
  from t rh sub h3 have c1:
    "find_references_to_guid ?fs (guid_a, ?pre @ in_assets ''hit.mat'' # [in_assets ''later.mat''], ?a)
       = ((?a, True), ?pre @ [in_assets ''hit.mat''])" by blast
  from t h4 have c2: "snd (find_references_to_guid ?fs (guid_a, ?files, ?a)) = ?files" by blast
  from t rb have c3:
    "fst (find_references_to_guid ?fs
        (guid_a, [in_assets ''miss.mat''] @ in_assets ''blob.mat'' # [in_assets ''hit.mat''], ?a))
     = fst (find_references_to_guid ?fs
        (guid_a, [in_assets ''miss.mat''] @ [in_assets ''hit.mat''], ?a))" by blast
  from rh rb rl rm c1 h4 c2 c3 show ?thesis by simp
qed

subsection \<open>C7: extracting the identifier from a sidecar file\<close>

text \<open>
  Claim C7.  (1) When the text of the sidecar file is \<open>pre\<close>, then the field
  \<^verbatim>\<open>guid: \<close> with a token of 32 characters of \<^verbatim>\<open>[a-f0-9]\<close>, then \<open>post\<close>, and the pattern
  matches at no position inside \<open>pre\<close> (so this is the first match), then
  \<^verbatim>\<open>get_guid_from_meta\<close> returns exactly that token.  (2) When the pattern matches at no
  position of the text, it returns no identifier.  (3) When it returns no identifier for a
  sidecar file, the loop body of \<^verbatim>\<open>find_assets_to_check\<close> leaves the index as it was.
\<close>

theorem get_guid_from_meta_first_match:
  "(read_text fs p = Some (pre @ ''guid: '' @ tok @ post) \<and> length tok = 32 \<and> list_all is_hex tok
      \<and> (\<forall>i<length pre. \<not> match_here (drop i (pre @ ''guid: '' @ tok @ post)))
     \<longrightarrow> get_guid_from_meta fs p = Some tok)
   \<and> (read_text fs p' = Some content \<and> (\<forall>i<length content. \<not> match_here (drop i content))
     \<longrightarrow> get_guid_from_meta fs p' = None)
   \<and> (get_guid_from_meta fs (join root meta_file) = None
     \<longrightarrow> index_file fs root idx meta_file = idx)"
proof (intro conjI impI)
  assume a: "read_text fs p = Some (pre @ ''guid: '' @ tok @ post) \<and> length tok = 32
      \<and> list_all is_hex tok
      \<and> (\<forall>i<length pre. \<not> match_here (drop i (pre @ ''guid: '' @ tok @ post)))"
  let ?s = "pre @ ''guid: '' @ tok @ post"
  from a have "match_here (drop (length pre) ?s)"
    using match_here_token(1)[of tok post] by simp
  moreover from a have "\<forall>j<length pre. \<not> match_here (drop j ?s)" by blast
  ultimately have "re_search_guid ?s = Some (take 32 (drop 6 (drop (length pre) ?s)))"
    by (rule re_search_guid_first)
  also from a have "take 32 (drop 6 (drop (length pre) ?s)) = tok"
    using match_here_token(2)[of tok post] by simp
  finally show "get_guid_from_meta fs p = Some tok"
    using a by (simp add: get_guid_from_meta_def)
next
  assume b: "read_text fs p' = Some content \<and> (\<forall>i<length content. \<not> match_here (drop i content))"
  have "\<not> match_here (drop i content)" for i
  proof (cases "i < length content")
    case True
    with b show ?thesis by blast
  next
    case False
    then show ?thesis using match_here_length[of "drop i content"] by auto
  qed
  then have "re_search_guid content = None" by (intro re_search_guid_none) blast
  with b show "get_guid_from_meta fs p' = None" by (simp add: get_guid_from_meta_def)
next
  assume "get_guid_from_meta fs (join root meta_file) = None"
  then show "index_file fs root idx meta_file = idx" by (simp add: index_file_def Let_def)
qed

theorem get_guid_from_meta_first_match_witness:
  "read_text project_meta [''good.mat.meta'']
      = Some (''guid: ABC '' @ ''guid: '' @ guid_a @ ('' guid: '' @ guid_b))
   \<and> length guid_a = 32 \<and> list_all is_hex guid_a
   \<and> get_guid_from_meta project_meta [''good.mat.meta''] = Some guid_a
   \<and> read_text project_meta [''bad.mat.meta''] = Some ''guid: 0123''
   \<and> get_guid_from_meta project_meta [''bad.mat.meta''] = None
   \<and> exists_path project_meta [''bad.mat'']
   \<and> index_file project_meta [] [] ''bad.mat.meta'' = []"
proof -
  let ?fs = project_meta
  let ?pre = "''guid: ABC ''"
  let ?post = "'' guid: '' @ guid_b"
  have r1: "read_text ?fs [''good.mat.meta''] = Some (?pre @ ''guid: '' @ guid_a @ ?post)"
    by code_simp
  have l: "length guid_a = 32" by code_simp
  have hx: "list_all is_hex guid_a" by code_simp
  have "list_all (\<lambda>i. \<not> match_here (drop i (?pre @ ''guid: '' @ guid_a @ ?post))) [0..<length ?pre]"
    by code_simp
  then have nm: "\<forall>i<length ?pre. \<not> match_here (drop i (?pre @ ''guid: '' @ guid_a @ ?post))"
    by (simp only: all_less_list_all)
  have r2: "read_text ?fs [''bad.mat.meta''] = Some ''guid: 0123''" by code_simp
  have "list_all (\<lambda>i. \<not> match_here (drop i ''guid: 0123'')) [0..<length ''guid: 0123'']"
    by code_simp
  then have nm2: "\<forall>i<length ''guid: 0123''. \<not> match_here (drop i ''guid: 0123'')"
    by (simp only: all_less_list_all)
  have ex: "exists_path ?fs [''bad.mat'']" by code_simp
  have j: "join [] ''bad.mat.meta'' = [''bad.mat.meta'']" by code_simp
  note t = get_guid_from_meta_first_match
      [where fs = ?fs and p = "[''good.mat.meta'']" and pre = ?pre and tok = guid_a
         and post = ?post and p' = "[''bad.mat.meta'']" and content = "''guid: 0123''"
         and root = "[]" and meta_file = "''bad.mat.meta''" and idx = "[]"]
  from t r1 l hx nm have c1: "get_guid_from_meta ?fs [''good.mat.meta''] = Some guid_a" by blast
  from t r2 nm2 have c2: "get_guid_from_meta ?fs [''bad.mat.meta''] = None" by blast
  from t c2 j have c3: "index_file ?fs [] [] ''bad.mat.meta'' = []" by simp
  from r1 l hx c1 r2 c2 ex c3 show ?thesis by blast
qed

subsection \<open>C8: two runs on the same tree\<close>

text \<open>
  Claim C8.  Two runs of \<open>main\<close> on the same filesystem snapshot with the same arguments
  differ only in the order in which the pool completes the work items.  For any two such
  orders both runs end with the same error, or both report, and the two reported lists hold
  the same set of asset paths.  The enumeration order of the directories belongs to the
  snapshot.
\<close>

theorem result_set_independent_of_completion_order:
  assumes "valid_completion (find_assets_to_check fs (dir a)) completion1"
    and "valid_completion (find_assets_to_check fs (dir a)) completion2"
  shows "(case (main lower fs a completion1, main lower fs a completion2) of
            (Inr unused1, Inr unused2) \<Rightarrow> set unused1 = set unused2
          | (Inl e1, Inl e2) \<Rightarrow> e1 = e2
          | _ \<Rightarrow> False)"
proof (cases "main lower fs a completion1")
  case (Inl e1)
  then have "main lower fs a completion2 = Inl e1"
    by (auto simp: main_def Let_def split: if_splits sum.splits)
  with Inl show ?thesis by simp
next
  case (Inr unused1)
  then obtain unused2 where u2: "main lower fs a completion2 = Inr unused2"
    by (auto simp: main_def Let_def split: if_splits sum.splits)
  from main_unused_mset[OF assms(1) Inr] main_unused_mset[OF assms(2) u2]
  have "mset unused1 = mset unused2" by auto
  then have "set unused1 = set unused2" by (rule mset_eq_setD)
  with Inr u2 show ?thesis by simp
qed

theorem result_set_independent_of_completion_order_witness:
  "valid_completion (find_assets_to_check project_a (dir args_mat)) [0, 1]
   \<and> valid_completion (find_assets_to_check project_a (dir args_mat)) [1, 0]
   \<and> main lower_latin1 project_a args_mat [0, 1] = Inr [in_assets ''foo.prefab'', in_assets ''bar.mat'']
   \<and> main lower_latin1 project_a args_mat [1, 0] = Inr [in_assets ''bar.mat'', in_assets ''foo.prefab'']
   \<and> set [in_assets ''foo.prefab'', in_assets ''bar.mat'']
       = set [in_assets ''bar.mat'', in_assets ''foo.prefab'']"
proof -
  have v1: "valid_completion (find_assets_to_check project_a (dir args_mat)) [0, 1]" by code_simp
  have v2: "valid_completion (find_assets_to_check project_a (dir args_mat)) [1, 0]" by code_simp
  have m1: "main lower_latin1 project_a args_mat [0, 1] = Inr [in_assets ''foo.prefab'', in_assets ''bar.mat'']"
    by code_simp
  have m2: "main lower_latin1 project_a args_mat [1, 0] = Inr [in_assets ''bar.mat'', in_assets ''foo.prefab'']"
    by code_simp
  from result_set_independent_of_completion_order[where lower = lower_latin1, OF v1 v2]
  have "set [in_assets ''foo.prefab'', in_assets ''bar.mat'']
       = set [in_assets ''bar.mat'', in_assets ''foo.prefab'']"
    unfolding m1 m2 by simp
  with v1 v2 m1 m2 show ?thesis by blast
qed

subsection \<open>C9: the paths of the Candidate Index\<close>

text \<open>
  Claim C9.  Every asset path in the Candidate Index that \<^verbatim>\<open>find_assets_to_check\<close>
  returns exists and is not a directory; a path that does not exist, or that is a directory,
  is never an asset path of the index.
\<close>

theorem index_paths_are_existing_files:
  "(\<forall>e\<in>set (find_assets_to_check fs dir_path). exists_path fs (snd e) \<and> \<not> isdir fs (snd e))
   \<and> (\<forall>p. \<not> (exists_path fs p \<and> \<not> isdir fs p)
          \<longrightarrow> p \<notin> snd ` set (find_assets_to_check fs dir_path))"
proof -
  have a: "\<forall>e\<in>set (find_assets_to_check fs dir_path). exists_path fs (snd e) \<and> \<not> isdir fs (snd e)"
    using index_entries_ok[of fs dir_path] by (simp add: entry_ok_def)
  then have "\<forall>p. \<not> (exists_path fs p \<and> \<not> isdir fs p)
          \<longrightarrow> p \<notin> snd ` set (find_assets_to_check fs dir_path)"
    by blast
  with a show ?thesis by blast
qed

theorem index_paths_are_existing_files_witness:
  "find_assets_to_check project_orphans [''proj'', ''Assets''] = [(guid_a, in_assets ''real.mat'')]
   \<and> exists_path project_orphans (in_assets ''real.mat'')
   \<and> \<not> isdir project_orphans (in_assets ''real.mat'')
   \<and> \<not> exists_path project_orphans (in_assets ''ghost.mat'')
   \<and> isdir project_orphans (in_assets ''Textures'')
   \<and> in_assets ''ghost.mat'' \<notin> snd ` set (find_assets_to_check project_orphans [''proj'', ''Assets''])
   \<and> in_assets ''Textures'' \<notin> snd ` set (find_assets_to_check project_orphans [''proj'', ''Assets''])"
proof -
  let ?fs = project_orphans
  let ?idx = "find_assets_to_check ?fs [''proj'', ''Assets'']"
  have i: "?idx = [(guid_a, in_assets ''real.mat'')]" by code_simp
  have g: "\<not> exists_path ?fs (in_assets ''ghost.mat'')" by code_simp
  have d: "isdir ?fs (in_assets ''Textures'')" by code_simp
  note t = index_paths_are_existing_files[of ?fs "[''proj'', ''Assets'']"]
  from t i have r: "exists_path ?fs (in_assets ''real.mat'') \<and> \<not> isdir ?fs (in_assets ''real.mat'')"
    by simp
  from t g have c1: "in_assets ''ghost.mat'' \<notin> snd ` set ?idx" by blast
  from t d have c2: "in_assets ''Textures'' \<notin> snd ` set ?idx" by blast
  from i r g d c1 c2 show ?thesis by blast
qed

subsection \<open>C10: an asset that mentions its own identifier\<close>

text \<open>
  Claim C10 as stated says that every candidate asset whose file has a configured extension
  and decodes as text is a member of the corpus.  The candidates are collected below the
  directory given by \<^verbatim>\<open>--dir\<close>, the corpus below the located \<^verbatim>\<open>Assets\<close> directory.  In
  \<open>project_outside\<close> the tool is run on \<^verbatim>\<open>/proj\<close>: the candidate
  \<^verbatim>\<open>/proj/Extra/self.mat\<close> has the extension \<^verbatim>\<open>.mat\<close>, is text and contains its own
  identifier, yet it is not in the corpus and it is reported as unused.
\<close>

theorem own_file_outside_assets_counterexample:
  "valid_completion (find_assets_to_check project_outside (dir args_outside)) [0]
   \<and> find_assets_to_check project_outside (dir args_outside)
       = [(guid_a, [''proj'', ''Extra'', ''self.mat''])]
   \<and> find_assets_dir project_outside (dir args_outside) = Inr [''proj'', ''Assets'']
   \<and> ''.mat'' \<in> set (extensions args_outside)
   \<and> endswith (lower_latin1 ''self.mat'') (lower_latin1 ''.mat'')
   \<and> read_text project_outside [''proj'', ''Extra'', ''self.mat''] = Some (''me: '' @ guid_a)
   \<and> contains (''me: '' @ guid_a) guid_a
   \<and> [''proj'', ''Extra'', ''self.mat'']
        \<notin> set (collect_searchable_files lower_latin1 project_outside [''proj'', ''Assets'']
                  (extensions args_outside))
   \<and> main lower_latin1 project_outside args_outside [0] = Inr [[''proj'', ''Extra'', ''self.mat'']]"
  by code_simp

text \<open>
  Claim C10, amended.  Let \<open>(guid, asset_path)\<close> be an entry of the Candidate Index such
  that \<open>asset_path\<close> lies below the located \<^verbatim>\<open>Assets\<close> directory, its file name after
  \<^verbatim>\<open>str.lower\<close> ends with one of the configured extensions after \<^verbatim>\<open>str.lower\<close> (the test
  of \<^verbatim>\<open>collect_searchable_files\<close>, for whatever function \<open>lower\<close> is), and the file can be
  read as text.  Then \<open>asset_path\<close> is a member of the corpus; and when its own text has \<open>guid\<close> as
  a substring, \<open>asset_path\<close> is not in the Result Set.
\<close>

theorem own_file_inside_assets_is_searched:
  assumes "valid_completion (find_assets_to_check fs (dir a)) completion"
    and "main lower fs a completion = Inr unused"
    and "find_assets_dir fs (dir a) = Inr assets_dir"
    and "(guid, asset_path) \<in> set (find_assets_to_check fs (dir a))"
    and "asset_path = assets_dir @ rel"
    and "list_ex (\<lambda>ext. endswith (lower (last asset_path)) (lower ext)) (extensions a)"
    and "read_text fs asset_path = Some content"
  shows "asset_path \<in> set (collect_searchable_files lower fs assets_dir (extensions a))
         \<and> ((\<exists>l r. content = l @ guid @ r) \<longrightarrow> asset_path \<notin> set unused)"
proof -
  let ?corpus = "collect_searchable_files lower fs assets_dir (extensions a)"
  from assms(7) obtain f where f: "lookup fs asset_path = Some (File f)"
    by (auto simp: read_text_def split: option.splits node.splits)
  from assms(7) have op: "can_open fs asset_path"
    by (auto simp: read_text_def can_open_def split: option.splits node.splits contents.splits)
  have "isdir fs assets_dir" using assms(3) by (rule find_assets_dir_isdir)
  with f assms(5) have rel: "rel \<noteq> []" by (auto simp: isdir_def)
  from index_entries_ok[of fs "dir a"] assms(4)
  have ne: "asset_path \<noteq> []" and ln: "last asset_path \<noteq> []" by (auto simp: entry_ok_def)
  from os_walk_complete[of fs assets_dir rel f] f rel assms(5) obtain dirs files
    where w: "(butlast asset_path, dirs, files) \<in> set (os_walk fs assets_dir)"
      and l: "last asset_path \<in> set files" by auto
  from ne ln have j: "join (butlast asset_path) (last asset_path) = asset_path"
    by (simp add: join_def)
  from assms(6) have ex: "list_ex (\<lambda>ext. endswith (lower (last asset_path)) ext)
                            (map lower (extensions a))"
    by (simp add: list_ex_iff)
  from op j have op': "can_open fs (join (butlast asset_path) (last asset_path))" by simp
  from collect_searchable_files_mem[OF w l ex op'] j
  have mem: "asset_path \<in> set ?corpus" by simp
  have "asset_path \<notin> set unused" if "\<exists>l r. content = l @ guid @ r"
  proof -
    from that have "contains content guid" by (simp add: contains_iff)
    with mem assms(7) have "fst (scan_files fs guid ?corpus)"
      by (auto simp: scan_files_found_iff)
    with main_report[OF assms(1-4)] have "count (mset unused) asset_path = 0" by simp
    then show ?thesis by (simp add: count_eq_zero_iff)
  qed
  with mem show ?thesis by blast
qed

theorem own_file_inside_assets_is_searched_witness:
  "valid_completion (find_assets_to_check project_self (dir args_self)) [0]
   \<and> main lower_latin1 project_self args_self [0] = Inr []
   \<and> find_assets_dir project_self (dir args_self) = Inr [''proj'', ''Assets'']
   \<and> (guid_a, in_assets name_self) \<in> set (find_assets_to_check project_self (dir args_self))
   \<and> in_assets name_self = [''proj'', ''Assets''] @ [name_self]
   \<and> list_ex (\<lambda>ext. endswith (lower_latin1 (last (in_assets name_self))) (lower_latin1 ext))
        (extensions args_self)
   \<and> \<not> endswith name_self ext_self
   \<and> read_text project_self (in_assets name_self) = Some (''me: '' @ guid_a @ [])
   \<and> in_assets name_self
        \<in> set (collect_searchable_files lower_latin1 project_self [''proj'', ''Assets'']
                  (extensions args_self))
   \<and> in_assets name_self \<notin> set []"
proof -
  have v: "valid_completion (find_assets_to_check project_self (dir args_self)) [0]" by code_simp
  have m: "main lower_latin1 project_self args_self [0] = Inr []" by code_simp
  have d: "find_assets_dir project_self (dir args_self) = Inr [''proj'', ''Assets'']" by code_simp
  have i: "(guid_a, in_assets name_self) \<in> set (find_assets_to_check project_self (dir args_self))"
    by code_simp
  have p: "in_assets name_self = [''proj'', ''Assets''] @ [name_self]" by code_simp
  have e: "list_ex (\<lambda>ext. endswith (lower_latin1 (last (in_assets name_self))) (lower_latin1 ext))
        (extensions args_self)" by code_simp
  have n: "\<not> endswith name_self ext_self" by code_simp
  have r: "read_text project_self (in_assets name_self) = Some (''me: '' @ guid_a @ [])"
    by code_simp
  have s: "\<exists>l r. ''me: '' @ guid_a @ [] = l @ guid_a @ r" by blast
  from own_file_inside_assets_is_searched[OF v m d i p e r] s v m d i p e n r
  show ?thesis by blast
qed

end
